theory Spec2Isabelle
  imports Main
begin

section \<open>Strings\<close>

text \<open>
  The crawler of \<^verbatim>\<open>src/wireframes-reader.ts\<close> works on JavaScript strings. They are
  modelled as \<^typ>\<open>string\<close>, the text in its UTF-8 encoding (generalised so that a
  surrogate on its own, which \<^verbatim>\<open>substring\<close> can leave, has its three bytes). Concatenation
  and the prefix, suffix and substring tests of text agree with those of its encoding.
\<close>

text \<open>\<^verbatim>\<open>s.startsWith(p)\<close>, \<^verbatim>\<open>s.endsWith(p)\<close> and \<^verbatim>\<open>s.includes(t)\<close> (named \<open>includes_str\<close> here).\<close>

fun startsWith :: "string \<Rightarrow> string \<Rightarrow> bool" where
  "startsWith s [] = True"
| "startsWith [] (c # cs) = False"
| "startsWith (x # xs) (c # cs) = (x = c \<and> startsWith xs cs)"

definition endsWith :: "string \<Rightarrow> string \<Rightarrow> bool" where
  "endsWith s p = startsWith (rev s) (rev p)"

fun includes_str :: "string \<Rightarrow> string \<Rightarrow> bool" where
  "includes_str [] t = (t = [])"
| "includes_str (x # xs) t = (startsWith (x # xs) t \<or> includes_str xs t)"

text \<open>
  \<^verbatim>\<open>s.toLowerCase()\<close>. The characters whose lower case contains an ASCII character are
  the letters \<open>A\<close> to \<open>Z\<close>, the Kelvin sign (U+212A, lower case \<open>k\<close>) and the capital I
  with dot above (U+0130, lower case \<open>i\<close> followed by U+0307); they are mapped as JavaScript
  maps them. Any other character is kept as it is: its lower case has no ASCII character
  either, and the source only tests lowercased text for ASCII substrings.
\<close>

definition lower_char :: "char \<Rightarrow> char" where
  "lower_char c =
     (case map_of (zip ''ABCDEFGHIJKLMNOPQRSTUVWXYZ'' ''abcdefghijklmnopqrstuvwxyz'') c of
        Some d \<Rightarrow> d
      | None \<Rightarrow> c)"

definition kelvin_sign :: string where
  "kelvin_sign = [CHR 0xE2, CHR 0x84, CHR 0xAA]"

definition capital_I_with_dot :: string where
  "capital_I_with_dot = [CHR 0xC4, CHR 0xB0]"

definition small_i_with_dot :: string where
  "small_i_with_dot = [CHR ''i'', CHR 0xCC, CHR 0x87]"

function toLowerCase :: "string \<Rightarrow> string" where
  "toLowerCase [] = []"
| "toLowerCase (c # r) =
     (if startsWith (c # r) kelvin_sign then ''k'' @ toLowerCase (drop 2 r)
      else if startsWith (c # r) capital_I_with_dot then small_i_with_dot @ toLowerCase (drop 1 r)
      else lower_char c # toLowerCase r)"
  by pat_completeness auto
termination
  by (relation "measure length") auto

text \<open>\<^verbatim>\<open>xs.some(p)\<close> on an array.\<close>

definition some :: "'a list \<Rightarrow> ('a \<Rightarrow> bool) \<Rightarrow> bool" where
  "some xs p = list_ex p xs"

text \<open>
  A regular expression \<^verbatim>\<open>/lit\d+/\<close> without flags matches a string exactly when the
  string contains the literal followed by one of the digits \<open>0\<close> to \<open>9\<close>.
\<close>

definition test_lit_digits :: "string \<Rightarrow> string \<Rightarrow> bool" where
  "test_lit_digits lit s = list_ex (\<lambda>d. includes_str s (lit @ [d])) ''0123456789''"

text \<open>
  \<^verbatim>\<open>url.match(/\/([^\/]+)\/$/)\<close> is not null exactly when the string ends with a slash,
  a non-empty run of characters other than the slash, and a slash.
\<close>

definition match_dir_pattern :: "string \<Rightarrow> bool" where
  "match_dir_pattern s =
     (case rev s of
        [] \<Rightarrow> False
      | c # r \<Rightarrow> c = CHR ''/'' \<and> takeWhile (\<lambda>x. x \<noteq> CHR ''/'') r \<noteq> []
                 \<and> dropWhile (\<lambda>x. x \<noteq> CHR ''/'') r \<noteq> [])"

section \<open>The URL resolver and the link classifier\<close>

definition baseUrl :: string where
  "baseUrl = ''https://gytx.dev/wareframes/pog_up_wareframes/''"

text \<open>
  \<^verbatim>\<open>resolveUrl(url, baseUrl?)\<close>: the optional second argument is an option; in
  \<^verbatim>\<open>baseUrl || this.baseUrl\<close> the empty string is falsy as \<^verbatim>\<open>undefined\<close> is.
\<close>

definition resolveUrl :: "string \<Rightarrow> string option \<Rightarrow> string" where
  "resolveUrl url base_opt =
     (if startsWith url ''http'' then url
      else if startsWith url ''/'' then ''https://gytx.dev'' @ url
      else (case base_opt of
              None \<Rightarrow> baseUrl
            | Some b \<Rightarrow> if b = [] then baseUrl else b) @ url)"

definition isValidPaginationLink :: "string \<Rightarrow> string \<Rightarrow> bool" where
  "isValidPaginationLink url currentUrl =
     (if \<not> includes_str url ''gytx.dev'' then False
      else if url = currentUrl then False
      else some [test_lit_digits ''page='', test_lit_digits ''p='',
                 test_lit_digits ''offset='', test_lit_digits ''/page/'',
                 test_lit_digits ''/p/'']
             (\<lambda>pattern. pattern url))"

definition isDirectory :: "string \<Rightarrow> bool" where
  "isDirectory url =
     some [endsWith url ''/'',
           includes_str url ''/wareframes/'',
           includes_str url ''/pog_up_wareframes/'',
           \<not> includes_str url ''.'' \<and> includes_str url ''/'',
           match_dir_pattern url]
       (\<lambda>pattern. pattern)"

definition isWebPage :: "string \<Rightarrow> bool" where
  "isWebPage url =
     some [''.html'', ''.htm'', ''.php'', ''.asp'', ''.aspx'', ''.jsp'']
       (\<lambda>ext. includes_str (toLowerCase url) ext)"

definition directFileExtensions :: "string list" where
  "directFileExtensions =
     [''.png'', ''.jpg'', ''.jpeg'', ''.gif'', ''.svg'', ''.pdf'', ''.zip'', ''.rar'',
      ''.doc'', ''.docx'', ''.txt'']"

definition shouldExploreLink :: "string \<Rightarrow> string \<Rightarrow> bool" where
  "shouldExploreLink url currentUrl =
     (if \<not> includes_str url ''gytx.dev'' then False
      else if some directFileExtensions (\<lambda>ext. includes_str (toLowerCase url) ext) then False
      else isDirectory url \<or> isWebPage url)"

definition wireframeExtensions :: "string list" where
  "wireframeExtensions = [''.png'', ''.jpg'', ''.jpeg'', ''.gif'', ''.svg'', ''.pdf'']"

definition wireframeKeywords :: "string list" where
  "wireframeKeywords = [''wireframe'', ''mockup'', ''design'', ''ui'', ''ux'', ''screen'']"

definition isWireframeFile :: "string \<Rightarrow> bool" where
  "isWireframeFile url =
     (let lowerUrl = toLowerCase url;
          hasValidExtension = some wireframeExtensions (\<lambda>ext. includes_str lowerUrl ext);
          hasWireframeKeyword =
            some wireframeKeywords
              (\<lambda>keyword. includes_str lowerUrl keyword \<or> includes_str lowerUrl ''pog'')
      in hasValidExtension \<or> hasWireframeKeyword)"

datatype file_type = TypeImage | TypePage | TypeUnknown

definition getFileType :: "string \<Rightarrow> file_type" where
  "getFileType url =
     (let lowerUrl = toLowerCase url in
      if includes_str lowerUrl ''.png'' \<or> includes_str lowerUrl ''.jpg'' \<or> includes_str lowerUrl ''.jpeg''
         \<or> includes_str lowerUrl ''.gif'' \<or> includes_str lowerUrl ''.svg'' then TypeImage
      else if includes_str lowerUrl ''.pdf'' then TypePage
      else TypeUnknown)"

section \<open>The parsed document\<close>

text \<open>
  HTML parsing is an external capability (\<^verbatim>\<open>cheerio.load\<close>). A parsed document is the
  list of its elements in document order; an element carries what the selectors and
  accessors used by the crawler read: its tag name, its attributes, its text content, the
  classes of its ancestors, and the text content of its parent and of its grandparent.
\<close>

record element =
  tag :: string
  attrs :: "(string \<times> string) list"
  textContent :: string
  ancestorClasses :: "string list"
  parentText :: string
  grandParentText :: string

type_synonym document = "element list"

text \<open>\<^verbatim>\<open>$(element).attr(name)\<close>: \<open>None\<close> is \<^verbatim>\<open>undefined\<close>.\<close>

definition attr :: "element \<Rightarrow> string \<Rightarrow> string option" where
  "attr el a = map_of (attrs el) a"

text \<open>
  The selectors of the source: \<^verbatim>\<open>img\<close> is \<open>Tag\<close>, \<^verbatim>\<open>a[href]\<close> is \<open>TagAttr\<close>,
  \<^verbatim>\<open>a[href*="page="]\<close> is \<open>TagAttrContains\<close>, \<^verbatim>\<open>.pagination a\<close> is \<open>ClassDescendant\<close>
  and \<^verbatim>\<open>a:contains("Next")\<close> is \<open>TagContains\<close>.
\<close>

datatype selector =
    Tag string
  | TagAttr string string
  | TagAttrContains string string string
  | ClassDescendant string string
  | TagContains string string

fun matches :: "selector \<Rightarrow> element \<Rightarrow> bool" where
  "matches (Tag t) el = (tag el = t)"
| "matches (TagAttr t a) el = (tag el = t \<and> attr el a \<noteq> None)"
| "matches (TagAttrContains t a v) el =
     (tag el = t \<and> (case attr el a of None \<Rightarrow> False | Some x \<Rightarrow> includes_str x v))"
| "matches (ClassDescendant c t) el = (tag el = t \<and> c \<in> set (ancestorClasses el))"
| "matches (TagContains t v) el = (tag el = t \<and> includes_str (textContent el) v)"

text \<open>\<^verbatim>\<open>$(selector)\<close>: the matching elements in document order.\<close>

definition select :: "document \<Rightarrow> selector \<Rightarrow> element list" where
  "select doc sel = filter (matches sel) doc"

text \<open>
  The characters of a text: every byte that is not a continuation byte starts one.
\<close>

definition isContinuation :: "char \<Rightarrow> bool" where
  "isContinuation b = (128 \<le> (of_char b :: nat) \<and> (of_char b :: nat) < 192)"

function chars :: "string \<Rightarrow> string list" where
  "chars [] = []"
| "chars (b # bs) = (b # takeWhile isContinuation bs) # chars (dropWhile isContinuation bs)"
  by pat_completeness auto
termination
proof (relation "measure length")
  show "wf (measure length)" by simp
next
  fix b :: char and bs :: string
  show "(dropWhile isContinuation bs, b # bs) \<in> measure length"
    using length_dropWhile_le [of isContinuation bs] by simp
qed

text \<open>
  \<^verbatim>\<open>s.trim()\<close> removes the white space and line terminators of ECMAScript at both ends:
  U+0009 to U+000D, U+0020, U+00A0, U+1680, U+2000 to U+200A, U+2028, U+2029, U+202F, U+205F,
  U+3000 and U+FEFF.
\<close>

definition whiteSpace :: "string list" where
  "whiteSpace =
     [[CHR 0x09], [CHR 0x0A], [CHR 0x0B], [CHR 0x0C], [CHR 0x0D], [CHR 0x20],
      [CHR 0xC2, CHR 0xA0], [CHR 0xE1, CHR 0x9A, CHR 0x80],
      [CHR 0xE2, CHR 0x80, CHR 0x80], [CHR 0xE2, CHR 0x80, CHR 0x81],
      [CHR 0xE2, CHR 0x80, CHR 0x82], [CHR 0xE2, CHR 0x80, CHR 0x83],
      [CHR 0xE2, CHR 0x80, CHR 0x84], [CHR 0xE2, CHR 0x80, CHR 0x85],
      [CHR 0xE2, CHR 0x80, CHR 0x86], [CHR 0xE2, CHR 0x80, CHR 0x87],
      [CHR 0xE2, CHR 0x80, CHR 0x88], [CHR 0xE2, CHR 0x80, CHR 0x89],
      [CHR 0xE2, CHR 0x80, CHR 0x8A], [CHR 0xE2, CHR 0x80, CHR 0xA8],
      [CHR 0xE2, CHR 0x80, CHR 0xA9], [CHR 0xE2, CHR 0x80, CHR 0xAF],
      [CHR 0xE2, CHR 0x81, CHR 0x9F], [CHR 0xE3, CHR 0x80, CHR 0x80],
      [CHR 0xEF, CHR 0xBB, CHR 0xBF]]"

definition isWhiteSpace :: "string \<Rightarrow> bool" where
  "isWhiteSpace ch = (ch \<in> set whiteSpace)"

definition trim :: "string \<Rightarrow> string" where
  "trim s = concat (rev (dropWhile isWhiteSpace (rev (dropWhile isWhiteSpace (chars s)))))"

text \<open>
  \<^verbatim>\<open>s.substring(0, n)\<close> counts UTF-16 code units: a character of four bytes has two, any
  other character has one. When only one unit is left for a character of two, its high
  surrogate is kept.
\<close>

definition highSurrogate :: "string \<Rightarrow> string" where
  "highSurrogate ch =
     (let b = map (\<lambda>c. of_char c :: nat) ch;
          cp = (b ! 0 mod 8) * 262144 + (b ! 1 mod 64) * 4096 + (b ! 2 mod 64) * 64 + b ! 3 mod 64;
          hi = 55296 + (cp - 65536) div 1024
      in [CHR 0xED, char_of (128 + hi div 64 mod 64), char_of (128 + hi mod 64)])"

fun take_units :: "nat \<Rightarrow> string list \<Rightarrow> string" where
  "take_units 0 cs = []"
| "take_units (Suc n) [] = []"
| "take_units (Suc n) (ch # cs) =
     (if length ch = 4
      then (if n = 0 then highSurrogate ch else ch @ take_units (n - 1) cs)
      else ch @ take_units n cs)"

definition substring0 :: "nat \<Rightarrow> string \<Rightarrow> string" where
  "substring0 n s = take_units n (chars s)"


section \<open>Asset extraction\<close>

text \<open>
  The interface \<^verbatim>\<open>WireframeInfo\<close>. Its optional field \<^verbatim>\<open>size\<close> is never set by the
  crawler and is left out.
\<close>

record WireframeInfo =
  name :: string
  url :: string
  type :: file_type
  description :: "string option"

definition extractFileName :: "string \<Rightarrow> string" where
  "extractFileName u =
     (let lastPart = rev (takeWhile (\<lambda>c. c \<noteq> CHR ''/'') (rev u))
      in if lastPart \<noteq> [] then lastPart else ''wireframe'')"

definition extractDescription :: "element \<Rightarrow> string" where
  "extractDescription el =
     (let parentTxt = trim (parentText el);
          grandParentTxt = trim (grandParentText el)
      in if substring0 100 parentTxt \<noteq> [] then substring0 100 parentTxt
         else if substring0 100 grandParentTxt \<noteq> [] then substring0 100 grandParentTxt
         else [])"

text \<open>The two callbacks of \<^verbatim>\<open>parseWireframes\<close>: what one anchor and one image push.\<close>

definition anchorWireframes :: "string option \<Rightarrow> element \<Rightarrow> WireframeInfo list" where
  "anchorWireframes sourceUrl el =
     (case attr el ''href'' of
        None \<Rightarrow> []
      | Some href \<Rightarrow>
          let txt = trim (textContent el) in
          if href \<noteq> [] \<and> isWireframeFile href
          then [\<lparr>name = (if txt \<noteq> [] then txt else extractFileName href),
                 url = resolveUrl href sourceUrl,
                 type = getFileType href,
                 description = Some (extractDescription el)\<rparr>]
          else [])"

definition imgWireframes :: "string option \<Rightarrow> element \<Rightarrow> WireframeInfo list" where
  "imgWireframes sourceUrl el =
     (case attr el ''src'' of
        None \<Rightarrow> []
      | Some src \<Rightarrow>
          let alt = (case attr el ''alt'' of None \<Rightarrow> [] | Some a \<Rightarrow> a) in
          if src \<noteq> [] \<and> isWireframeFile src
          then [\<lparr>name = (if alt \<noteq> [] then alt else extractFileName src),
                 url = resolveUrl src sourceUrl,
                 type = TypeImage,
                 description = Some (extractDescription el)\<rparr>]
          else [])"

definition parseWireframes :: "document \<Rightarrow> string option \<Rightarrow> WireframeInfo list" where
  "parseWireframes doc sourceUrl =
     concat (map (anchorWireframes sourceUrl) (select doc (TagAttrContains ''a'' ''href'' ''.'')))
     @ concat (map (imgWireframes sourceUrl) (select doc (Tag ''img'')))"

section \<open>Link extraction\<close>

definition paginationSelectors :: "selector list" where
  "paginationSelectors =
     [TagAttrContains ''a'' ''href'' ''page='',
      TagAttrContains ''a'' ''href'' ''p='',
      TagAttrContains ''a'' ''href'' ''offset='',
      ClassDescendant ''pagination'' ''a'',
      ClassDescendant ''pager'' ''a'',
      ClassDescendant ''page-nav'' ''a'',
      TagContains ''a'' ''Suivant'',
      TagContains ''a'' (''Pr'' @ [CHR 0xC3, CHR 0xA9] @ ''c'' @ [CHR 0xC3, CHR 0xA9] @ ''dent''),
      TagContains ''a'' ''Next'',
      TagContains ''a'' ''Previous'',
      TagAttrContains ''a'' ''href'' ''&page'',
      TagAttrContains ''a'' ''href'' ''?page'']"

definition paginationLink :: "string \<Rightarrow> element \<Rightarrow> string list" where
  "paginationLink currentUrl el =
     (case attr el ''href'' of
        None \<Rightarrow> []
      | Some href \<Rightarrow>
          if href \<noteq> [] then
            (let resolvedUrl = resolveUrl href (Some currentUrl)
             in if isValidPaginationLink resolvedUrl currentUrl then [resolvedUrl] else [])
          else [])"

definition findPaginationLinks :: "document \<Rightarrow> string \<Rightarrow> string list" where
  "findPaginationLinks doc currentUrl =
     concat (map (\<lambda>sel. concat (map (paginationLink currentUrl) (select doc sel)))
               paginationSelectors)"

definition exploreLink :: "string \<Rightarrow> element \<Rightarrow> string list" where
  "exploreLink currentUrl el =
     (case attr el ''href'' of
        None \<Rightarrow> []
      | Some href \<Rightarrow>
          if href = [] then []
          else (let resolvedUrl = resolveUrl href (Some currentUrl)
                in if shouldExploreLink resolvedUrl currentUrl then [resolvedUrl] else []))"

text \<open>\<^verbatim>\<open>[...new Set(links)]\<close> keeps the first occurrence of every link, in order.\<close>

definition dedup :: "'a list \<Rightarrow> 'a list" where
  "dedup xs = rev (remdups (rev xs))"

definition findLinksToExplore :: "document \<Rightarrow> string \<Rightarrow> string list" where
  "findLinksToExplore doc currentUrl =
     (let links = concat (map (exploreLink currentUrl) (select doc (TagAttr ''a'' ''href'')));
          paginationLinks = findPaginationLinks doc currentUrl
      in dedup (links @ paginationLinks))"

section \<open>The crawl engine\<close>

text \<open>
  The HTTP transport is an external capability: \<^verbatim>\<open>axios.get\<close> either throws (a transport
  error, a timeout, a status that axios rejects) or returns a response with a status and
  the document. The state of a \<^verbatim>\<open>WireframesReader\<close> is its two fields; \<open>requests\<close> records
  the URLs given to \<^verbatim>\<open>axios.get\<close>, in order.
\<close>

datatype fetch_result = TransportError | Response int document

type_synonym world = "string \<Rightarrow> fetch_result"

record crawler =
  visitedUrls :: "string set"
  allWireframes :: "WireframeInfo list"
  requests :: "string list"

text \<open>
  The recursion of \<^verbatim>\<open>explorePage\<close> need not end, so it is bounded by a depth: a run
  that would go deeper stops with \<open>OutOfFuel\<close> and the state reached at that moment.
\<close>

datatype 'a run = Returned 'a | OutOfFuel 'a

fun state_of :: "'a run \<Rightarrow> 'a" where
  "state_of (Returned s) = s"
| "state_of (OutOfFuel s) = s"

fun explorePage :: "nat \<Rightarrow> world \<Rightarrow> string \<Rightarrow> crawler \<Rightarrow> crawler run"
  and exploreLinks :: "nat \<Rightarrow> world \<Rightarrow> string list \<Rightarrow> crawler \<Rightarrow> crawler run" where
  "explorePage 0 fetch u s = OutOfFuel s"
| "explorePage (Suc n) fetch u s =
     (if u \<in> visitedUrls s then Returned s
      else
        (let s1 = s\<lparr>visitedUrls := insert u (visitedUrls s), requests := requests s @ [u]\<rparr>
         in case fetch u of
              TransportError \<Rightarrow> Returned s1
            | Response status data \<Rightarrow>
                if status \<noteq> 200 then Returned s1
                else
                  (let pageWireframes = parseWireframes data (Some u);
                       s2 = s1\<lparr>allWireframes := allWireframes s1 @ pageWireframes\<rparr>;
                       linksToExplore = findLinksToExplore data u
                   in exploreLinks n fetch linksToExplore s2)))"
| "exploreLinks n fetch [] s = Returned s"
| "exploreLinks n fetch (link # links) s =
     (if link \<notin> visitedUrls s then
        (case explorePage n fetch link s of
           OutOfFuel s' \<Rightarrow> OutOfFuel s'
         | Returned s' \<Rightarrow> exploreLinks n fetch links s')
      else exploreLinks n fetch links s)"

definition newReader :: crawler where
  "newReader = \<lparr>visitedUrls = {}, allWireframes = [], requests = []\<rparr>"

definition exploreAllPages :: "nat \<Rightarrow> world \<Rightarrow> crawler run" where
  "exploreAllPages n fetch = explorePage n fetch baseUrl newReader"

text \<open>
  The link graph of a world: the links that \<^verbatim>\<open>explorePage\<close> schedules from a page, and
  the URLs reachable from the root along them.
\<close>

definition links_of :: "world \<Rightarrow> string \<Rightarrow> string list" where
  "links_of fetch u =
     (case fetch u of
        TransportError \<Rightarrow> []
      | Response status data \<Rightarrow> if status = 200 then findLinksToExplore data u else [])"

definition reachable :: "world \<Rightarrow> string set" where
  "reachable fetch = {(u, v). v \<in> set (links_of fetch u)}\<^sup>* `` {baseUrl}"

text \<open>
  The invariant of the crawl: the requests made so far are pairwise different, and they
  are exactly the visited URLs.
\<close>

definition visit_inv :: "crawler \<Rightarrow> bool" where
  "visit_inv s \<longleftrightarrow> distinct (requests s) \<and> set (requests s) = visitedUrls s"

text \<open>
  The records of every page that was requested and answered with status 200 are in the
  inventory.
\<close>

definition recorded_inv :: "world \<Rightarrow> crawler \<Rightarrow> bool" where
  "recorded_inv fetch s \<longleftrightarrow>
     (\<forall>u\<in>set (requests s). \<forall>data. fetch u = Response 200 data \<longrightarrow>
        set (parseWireframes data (Some u)) \<subseteq> set (allWireframes s))"

section \<open>Example documents and sites\<close>

definition anchor_el :: "string \<Rightarrow> element" where
  "anchor_el href =
     \<lparr>tag = ''a'', attrs = [(''href'', href)], textContent = [], ancestorClasses = [],
      parentText = [], grandParentText = []\<rparr>"

definition img_el :: "string \<Rightarrow> element" where
  "img_el src =
     \<lparr>tag = ''img'', attrs = [(''src'', src)], textContent = [], ancestorClasses = [],
      parentText = [], grandParentText = []\<rparr>"

text \<open>
  A site with a self-loop and a mutual cycle: the root links to itself and to
  \<^verbatim>\<open>page2/\<close>, which links to itself and back to the root.
\<close>

definition page2Url :: string where
  "page2Url = ''https://gytx.dev/wareframes/pog_up_wareframes/page2/''"

definition cyclic_site :: world where
  "cyclic_site u =
     (if u = baseUrl then Response 200 [anchor_el ''/wareframes/pog_up_wareframes/'', anchor_el ''page2/'']
      else if u = page2Url
      then Response 200 [anchor_el ''/wareframes/pog_up_wareframes/page2/'',
                         anchor_el ''/wareframes/pog_up_wareframes/'']
      else TransportError)"

text \<open>The root links to a page on another host whose path contains the domain name.\<close>

definition external_site :: world where
  "external_site u =
     (if u = baseUrl then Response 200 [anchor_el ''https://otherhost.com/gytx.dev/'']
      else TransportError)"

text \<open>The root links to an image on another host.\<close>

definition offsite_asset_site :: world where
  "offsite_asset_site u =
     (if u = baseUrl then Response 200 [anchor_el ''https://otherhost.com/image.png'']
      else TransportError)"

text \<open>
  The root links to a page whose name holds a keyword and to a numbered page of a
  listing; both answer with an empty document.
\<close>

definition overlap_site :: world where
  "overlap_site u =
     (if u = baseUrl then Response 200 [anchor_el ''design.html'', anchor_el ''list.php?page=2'']
      else Response 200 [])"

text \<open>
  The root links to \<^verbatim>\<open>page2/\<close>, whose request times out, and to \<^verbatim>\<open>page3/\<close>, which shows
  one image.
\<close>

definition page3Url :: string where
  "page3Url = ''https://gytx.dev/wareframes/pog_up_wareframes/page3/''"

definition failing_site :: world where
  "failing_site u =
     (if u = baseUrl then Response 200 [anchor_el ''page2/'', anchor_el ''page3/'']
      else if u = page3Url then Response 200 [img_el ''/mockup'']
      else TransportError)"

definition mockup_record :: WireframeInfo where
  "mockup_record =
     \<lparr>name = ''mockup'', url = ''https://gytx.dev/mockup'', type = TypeImage, description = Some []\<rparr>"

section \<open>Properties\<close>

lemma startsWith_iff: "startsWith s p \<longleftrightarrow> (\<exists>q. s = p @ q)"
  by (induction s p rule: startsWith.induct) auto

lemma includes_iff: "includes_str s t \<longleftrightarrow> (\<exists>p q. s = p @ t @ q)"
proof (induction s)
  case Nil
  then show ?case by auto
next
  case (Cons x xs)
  show ?case
  proof
    assume "includes_str (x # xs) t"
    then consider "startsWith (x # xs) t" | "includes_str xs t" by auto
    then show "\<exists>p q. x # xs = p @ t @ q"
    proof cases
      case 1
      then obtain q where "x # xs = t @ q" by (auto simp: startsWith_iff)
      then have "x # xs = [] @ t @ q" by simp
      then show ?thesis by blast
    next
      case 2
      then obtain p q where "xs = p @ t @ q" using Cons.IH by blast
      then have "x # xs = (x # p) @ t @ q" by simp
      then show ?thesis by blast
    qed
  next
    assume "\<exists>p q. x # xs = p @ t @ q"
    then obtain p q where pq: "x # xs = p @ t @ q" by blast
    show "includes_str (x # xs) t"
    proof (cases p)
      case Nil
      with pq have "startsWith (x # xs) t" by (auto simp: startsWith_iff)
      then show ?thesis by simp
    next
      case (Cons y ys)
      with pq have "xs = ys @ t @ q" by simp
      then have "includes_str xs t" using Cons.IH by blast
      then show ?thesis by simp
    qed
  qed
qed

subsection \<open>Link extraction and asset extraction\<close>

lemma set_dedup: "set (dedup xs) = set xs"
  by (simp add: dedup_def)


lemma distinct_dedup: "distinct (dedup xs)"
  by (simp add: dedup_def)


lemma includes_append_left: "includes_str s t \<Longrightarrow> includes_str (p @ s) t"
proof -
  assume "includes_str s t"
  then obtain a b where "s = a @ t @ b" by (auto simp: includes_iff)
  then have "p @ s = (p @ a) @ t @ b" by simp
  then show ?thesis unfolding includes_iff by blast
qed


lemma includes_Nil: "includes_str s []"
  by (induction s) auto

lemma includes_skip: "b \<notin> set e \<Longrightarrow> includes_str (b # t) e \<Longrightarrow> includes_str t e"
  by (cases e) (auto simp: includes_Nil)

text \<open>
  Lowercasing a longer text keeps the occurrences of a pattern that has none of the
  continuation bytes of the Kelvin sign and of the capital I with dot above.
\<close>

lemma toLowerCase_cons_includes:
  assumes e: "CHR 0x84 \<notin> set e" "CHR 0xAA \<notin> set e" "CHR 0xB0 \<notin> set e"
    and i: "includes_str (toLowerCase s) e"
  shows "includes_str (toLowerCase (x # s)) e"
proof -
  consider (kelvin) "startsWith (x # s) kelvin_sign"
    | (dotted) "\<not> startsWith (x # s) kelvin_sign" "startsWith (x # s) capital_I_with_dot"
    | (other) "\<not> startsWith (x # s) kelvin_sign" "\<not> startsWith (x # s) capital_I_with_dot"
    by blast
  then show ?thesis
  proof cases
    case kelvin
    then obtain r where s: "s = CHR 0x84 # CHR 0xAA # r"
      by (auto simp: startsWith_iff kelvin_sign_def)
    have "toLowerCase s = CHR 0x84 # CHR 0xAA # toLowerCase r"
      unfolding s by (simp add: kelvin_sign_def capital_I_with_dot_def lower_char_def)
    with i have "includes_str (toLowerCase r) e"
      using includes_skip [OF e(1)] includes_skip [OF e(2)] by metis
    then have "includes_str (''k'' @ toLowerCase r) e" by (rule includes_append_left)
    moreover have "toLowerCase (x # s) = ''k'' @ toLowerCase r"
      using kelvin by (simp add: s)
    ultimately show ?thesis by simp
  next
    case dotted
    then obtain r where s: "s = CHR 0xB0 # r"
      by (auto simp: startsWith_iff capital_I_with_dot_def)
    have "toLowerCase s = CHR 0xB0 # toLowerCase r"
      unfolding s by (simp add: kelvin_sign_def capital_I_with_dot_def lower_char_def)
    with i have "includes_str (toLowerCase r) e"
      using includes_skip [OF e(3)] by metis
    then have "includes_str (small_i_with_dot @ toLowerCase r) e" by (rule includes_append_left)
    moreover have "toLowerCase (x # s) = small_i_with_dot @ toLowerCase r"
      using dotted by (simp add: s)
    ultimately show ?thesis by simp
  next
    case other
    then have "toLowerCase (x # s) = [lower_char x] @ toLowerCase s" by simp
    moreover have "includes_str ([lower_char x] @ toLowerCase s) e"
      using i by (rule includes_append_left)
    ultimately show ?thesis by simp
  qed
qed

lemma toLowerCase_prefix_includes:
  assumes "CHR 0x84 \<notin> set e" "CHR 0xAA \<notin> set e" "CHR 0xB0 \<notin> set e"
    and "includes_str (toLowerCase s) e"
  shows "includes_str (toLowerCase (p @ s)) e"
proof (induction p)
  case Nil
  then show ?case using assms(4) by simp
next
  case (Cons x p)
  then show ?case
    using toLowerCase_cons_includes [OF assms(1-3), of "p @ s" x] by simp
qed

lemma resolveUrl_suffix: "\<exists>p. resolveUrl h b = p @ h"
  unfolding resolveUrl_def by (metis append_Nil)


lemma shouldExploreLink_domain: "shouldExploreLink v cur \<Longrightarrow> includes_str v ''gytx.dev''"
  unfolding shouldExploreLink_def by (simp split: if_splits)


lemma isValidPaginationLink_domain: "isValidPaginationLink v cur \<Longrightarrow> includes_str v ''gytx.dev''"
  unfolding isValidPaginationLink_def by (simp split: if_splits)


lemma exploreLink_mem:
  "v \<in> set (exploreLink cur el) \<longleftrightarrow>
     (\<exists>h. attr el ''href'' = Some h \<and> h \<noteq> [] \<and> v = resolveUrl h (Some cur)
          \<and> shouldExploreLink v cur)"
  by (cases "attr el ''href''") (auto simp: exploreLink_def Let_def)


lemma paginationLink_mem:
  "v \<in> set (paginationLink cur el) \<longleftrightarrow>
     (\<exists>h. attr el ''href'' = Some h \<and> h \<noteq> [] \<and> v = resolveUrl h (Some cur)
          \<and> isValidPaginationLink v cur)"
  by (cases "attr el ''href''") (auto simp: paginationLink_def Let_def)


lemma findPaginationLinks_mem:
  "v \<in> set (findPaginationLinks doc cur) \<longleftrightarrow>
     (\<exists>sel\<in>set paginationSelectors. \<exists>el\<in>set doc. matches sel el \<and> v \<in> set (paginationLink cur el))"
  unfolding findPaginationLinks_def select_def by auto


lemma findLinksToExplore_mem:
  "v \<in> set (findLinksToExplore doc cur) \<longleftrightarrow>
     (\<exists>el\<in>set doc. tag el = ''a'' \<and> v \<in> set (exploreLink cur el))
     \<or> v \<in> set (findPaginationLinks doc cur)"
proof -
  have "\<And>el. v \<in> set (exploreLink cur el) \<Longrightarrow> attr el ''href'' \<noteq> None"
    by (auto simp: exploreLink_mem)
  then show ?thesis
    unfolding findLinksToExplore_def Let_def set_dedup select_def by auto
qed


lemma findLinksToExplore_checked:
  "v \<in> set (findLinksToExplore doc cur) \<Longrightarrow>
     shouldExploreLink v cur \<or> isValidPaginationLink v cur"
  by (auto simp: findLinksToExplore_mem findPaginationLinks_mem exploreLink_mem paginationLink_mem)


lemma findLinksToExplore_domain:
  "v \<in> set (findLinksToExplore doc cur) \<Longrightarrow> includes_str v ''gytx.dev''"
  using findLinksToExplore_checked shouldExploreLink_domain isValidPaginationLink_domain by blast


lemma anchorWireframes_mem:
  "r \<in> set (anchorWireframes src el) \<longleftrightarrow>
     (\<exists>h. attr el ''href'' = Some h \<and> h \<noteq> [] \<and> isWireframeFile h
        \<and> r = \<lparr>name = (if trim (textContent el) \<noteq> [] then trim (textContent el) else extractFileName h),
                 url = resolveUrl h src, type = getFileType h,
                 description = Some (extractDescription el)\<rparr>)"
  by (cases "attr el ''href''") (auto simp: anchorWireframes_def Let_def)


lemma imgWireframes_mem:
  "r \<in> set (imgWireframes src el) \<longleftrightarrow>
     (\<exists>h. attr el ''src'' = Some h \<and> h \<noteq> [] \<and> isWireframeFile h
        \<and> r = \<lparr>name = (if (case attr el ''alt'' of None \<Rightarrow> [] | Some a \<Rightarrow> a) \<noteq> []
                         then (case attr el ''alt'' of None \<Rightarrow> [] | Some a \<Rightarrow> a)
                         else extractFileName h),
                 url = resolveUrl h src, type = TypeImage,
                 description = Some (extractDescription el)\<rparr>)"
  by (cases "attr el ''src''") (auto simp: imgWireframes_def Let_def)


lemma parseWireframes_mem:
  "r \<in> set (parseWireframes doc src) \<longleftrightarrow>
     (\<exists>el\<in>set doc. tag el = ''a'' \<and> (\<exists>h. attr el ''href'' = Some h \<and> includes_str h ''.'')
          \<and> r \<in> set (anchorWireframes src el))
     \<or> (\<exists>el\<in>set doc. tag el = ''img'' \<and> r \<in> set (imgWireframes src el))"
proof -
  have "matches (TagAttrContains ''a'' ''href'' ''.'') el \<longleftrightarrow>
          tag el = ''a'' \<and> (\<exists>h. attr el ''href'' = Some h \<and> includes_str h ''.'')" for el
    by (cases "attr el ''href''") simp_all
  then show ?thesis
    unfolding parseWireframes_def select_def by (simp only: set_append set_concat set_map set_filter matches.simps) blast
qed


subsection \<open>Visited URLs and requests\<close>

text \<open>
  \<^verbatim>\<open>explorePage\<close> and the loop over the links keep the invariant, and the visited set
  only grows, whether the run returns or is cut off.
\<close>

lemma explore_inv:
  "visit_inv s \<Longrightarrow> visit_inv (state_of (explorePage n fetch u s))
      \<and> visitedUrls s \<subseteq> visitedUrls (state_of (explorePage n fetch u s))"
  "visit_inv s \<Longrightarrow> visit_inv (state_of (exploreLinks n fetch ls s))
      \<and> visitedUrls s \<subseteq> visitedUrls (state_of (exploreLinks n fetch ls s))"
proof (induction n fetch u s and n fetch ls s rule: explorePage_exploreLinks.induct)
  case (1 fetch u s)
  then show ?case by simp
next
  case (2 n fetch u s)
  show ?case
  proof (cases "u \<in> visitedUrls s")
    case True
    with 2 show ?thesis by simp
  next
    case False
    let ?s1 = "s\<lparr>visitedUrls := insert u (visitedUrls s), requests := requests s @ [u]\<rparr>"
    have i1: "visit_inv ?s1" using "2.prems" False by (auto simp: visit_inv_def)
    show ?thesis
    proof (cases "fetch u")
      case TransportError
      with False i1 show ?thesis by auto
    next
      case (Response status data)
      show ?thesis
      proof (cases "status = 200")
        case False
        with \<open>u \<notin> visitedUrls s\<close> Response i1 show ?thesis by auto
      next
        case True
        let ?s2 = "?s1\<lparr>allWireframes := allWireframes ?s1 @ parseWireframes data (Some u)\<rparr>"
        have i2: "visit_inv ?s2" using i1 by (simp add: visit_inv_def)
        have "visit_inv (state_of (exploreLinks n fetch (findLinksToExplore data u) ?s2))
            \<and> visitedUrls ?s2 \<subseteq> visitedUrls (state_of (exploreLinks n fetch (findLinksToExplore data u) ?s2))"
          using "2.IH" [OF \<open>u \<notin> visitedUrls s\<close> refl Response _ refl refl refl i2] True by simp
        with \<open>u \<notin> visitedUrls s\<close> Response True show ?thesis by (auto simp: Let_def)
      qed
    qed
  qed
next
  case (3 n fetch s)
  then show ?case by simp
next
  case (4 n fetch link links s)
  show ?case
  proof (cases "link \<in> visitedUrls s")
    case True
    with 4 show ?thesis by simp
  next
    case False
    have a: "visit_inv (state_of (explorePage n fetch link s))"
      and b: "visitedUrls s \<subseteq> visitedUrls (state_of (explorePage n fetch link s))"
      using "4.IH"(1) [OF False] "4.prems" by auto
    show ?thesis
    proof (cases "explorePage n fetch link s")
      case (OutOfFuel s')
      with a b False show ?thesis by simp
    next
      case (Returned s')
      with a b have "visit_inv s'" "visitedUrls s \<subseteq> visitedUrls s'" by auto
      with "4.IH"(2) [OF False Returned] False Returned show ?thesis by auto
    qed
  qed
qed


text \<open>
  The visited set is never removed from and the list of requests is only extended,
  from any state, whether the run returns or is cut off.
\<close>

lemma visited_grows:
  "visitedUrls s \<subseteq> visitedUrls (state_of (explorePage n fetch u s))
     \<and> (\<exists>new. requests (state_of (explorePage n fetch u s)) = requests s @ new)"
  "visitedUrls s \<subseteq> visitedUrls (state_of (exploreLinks n fetch ls s))
     \<and> (\<exists>new. requests (state_of (exploreLinks n fetch ls s)) = requests s @ new)"
proof (induction n fetch u s and n fetch ls s rule: explorePage_exploreLinks.induct)
  case (1 fetch u s)
  then show ?case by simp
next
  case (2 n fetch u s)
  show ?case
  proof (cases "u \<in> visitedUrls s")
    case True
    then show ?thesis by simp
  next
    case False
    let ?s1 = "s\<lparr>visitedUrls := insert u (visitedUrls s), requests := requests s @ [u]\<rparr>"
    show ?thesis
    proof (cases "fetch u")
      case TransportError
      with False show ?thesis by auto
    next
      case (Response status data)
      show ?thesis
      proof (cases "status = 200")
        case False
        with \<open>u \<notin> visitedUrls s\<close> Response show ?thesis by auto
      next
        case True
        let ?s2 = "?s1\<lparr>allWireframes := allWireframes ?s1 @ parseWireframes data (Some u)\<rparr>"
        let ?s3 = "state_of (exploreLinks n fetch (findLinksToExplore data u) ?s2)"
        have "visitedUrls ?s2 \<subseteq> visitedUrls ?s3 \<and> (\<exists>new. requests ?s3 = requests ?s2 @ new)"
          using "2.IH" [OF \<open>u \<notin> visitedUrls s\<close> refl Response _ refl refl refl] True by simp
        then obtain new where "visitedUrls ?s2 \<subseteq> visitedUrls ?s3"
          and "requests ?s3 = requests s @ (u # new)" by auto
        moreover have "explorePage (Suc n) fetch u s
                         = exploreLinks n fetch (findLinksToExplore data u) ?s2"
          using \<open>u \<notin> visitedUrls s\<close> Response True by (simp add: Let_def)
        ultimately show ?thesis by auto
      qed
    qed
  qed
next
  case (3 n fetch s)
  then show ?case by simp
next
  case (4 n fetch link links s)
  show ?case
  proof (cases "link \<in> visitedUrls s")
    case True
    with "4.IH"(3) show ?thesis by simp
  next
    case False
    from "4.IH"(1) [OF False] obtain new1
      where a: "visitedUrls s \<subseteq> visitedUrls (state_of (explorePage n fetch link s))"
        and b: "requests (state_of (explorePage n fetch link s)) = requests s @ new1" by blast
    show ?thesis
    proof (cases "explorePage n fetch link s")
      case (OutOfFuel s')
      with a b False show ?thesis by simp
    next
      case (Returned s')
      from "4.IH"(2) [OF False Returned] obtain new2
        where c: "visitedUrls s' \<subseteq> visitedUrls (state_of (exploreLinks n fetch links s'))"
          and d: "requests (state_of (exploreLinks n fetch links s')) = requests s' @ new2" by blast
      from a b Returned have "visitedUrls s \<subseteq> visitedUrls s'" "requests s' = requests s @ new1"
        by simp_all
      with c d have "visitedUrls s \<subseteq> visitedUrls (state_of (exploreLinks n fetch links s'))"
        "requests (state_of (exploreLinks n fetch links s')) = requests s @ (new1 @ new2)"
        by auto
      with False Returned show ?thesis by simp
    qed
  qed
qed

text \<open>
  C1. For every world (every link graph, cyclic or not) and every depth bound, the requests
  made by \<^verbatim>\<open>exploreAllPages\<close> are pairwise different: no URL is fetched twice. They are
  exactly the visited URLs, since a URL is marked visited when its request is made, before
  its links are followed; and \<^verbatim>\<open>explorePage\<close> and the loop over the links never remove
  a URL from the visited set.
\<close>

theorem each_url_fetched_at_most_once:
  "distinct (requests (state_of (exploreAllPages n fetch)))
   \<and> set (requests (state_of (exploreAllPages n fetch)))
       = visitedUrls (state_of (exploreAllPages n fetch))
   \<and> visitedUrls s \<subseteq> visitedUrls (state_of (explorePage n fetch u s))
   \<and> visitedUrls s \<subseteq> visitedUrls (state_of (exploreLinks n fetch ls s))"
proof -
  have "visit_inv newReader" by (simp add: visit_inv_def newReader_def)
  then have "visit_inv (state_of (exploreAllPages n fetch))"
    unfolding exploreAllPages_def using explore_inv(1) by blast
  then show ?thesis using visited_grows(1) [of s n fetch u] visited_grows(2) [of s n fetch ls]
    by (simp add: visit_inv_def)
qed

theorem each_url_fetched_at_most_once_witness:
  "requests (state_of (exploreAllPages 3 cyclic_site)) = [baseUrl, page2Url]
   \<and> distinct (requests (state_of (exploreAllPages 3 cyclic_site)))"
proof -
  have "requests (state_of (exploreAllPages 3 cyclic_site)) = [baseUrl, page2Url]"
    by code_simp
  then show ?thesis
    using each_url_fetched_at_most_once [of 3 cyclic_site] by simp
qed

text \<open>A property of URLs that the root and every scheduled link have holds of every request.\<close>

lemma requests_pred:
  "(\<forall>v\<in>set (requests s). P v) \<Longrightarrow> P u \<Longrightarrow>
   (\<forall>c data. \<forall>l\<in>set (findLinksToExplore data c). P l) \<Longrightarrow>
     \<forall>v\<in>set (requests (state_of (explorePage n fetch u s))). P v"
  "(\<forall>v\<in>set (requests s). P v) \<Longrightarrow> (\<forall>l\<in>set ls. P l) \<Longrightarrow>
   (\<forall>c data. \<forall>l\<in>set (findLinksToExplore data c). P l) \<Longrightarrow>
     \<forall>v\<in>set (requests (state_of (exploreLinks n fetch ls s))). P v"
proof (induction n fetch u s and n fetch ls s rule: explorePage_exploreLinks.induct)
  case (1 fetch u s)
  then show ?case by simp
next
  case (2 n fetch u s)
  show ?case
  proof (cases "u \<in> visitedUrls s")
    case True
    with "2.prems"(1) show ?thesis by simp
  next
    case False
    let ?s1 = "s\<lparr>visitedUrls := insert u (visitedUrls s), requests := requests s @ [u]\<rparr>"
    have d1: "\<forall>v\<in>set (requests ?s1). P v" using "2.prems"(1,2) by simp
    show ?thesis
    proof (cases "fetch u")
      case TransportError
      with False d1 show ?thesis by simp
    next
      case (Response status data)
      show ?thesis
      proof (cases "status = 200")
        case False
        with \<open>u \<notin> visitedUrls s\<close> Response d1 show ?thesis by simp
      next
        case True
        let ?s2 = "?s1\<lparr>allWireframes := allWireframes ?s1 @ parseWireframes data (Some u)\<rparr>"
        have d2: "\<forall>v\<in>set (requests ?s2). P v" using d1 by simp
        have ls: "\<forall>l\<in>set (findLinksToExplore data u). P l"
          using "2.prems"(3) by blast
        have "\<forall>v\<in>set (requests (state_of (exploreLinks n fetch (findLinksToExplore data u) ?s2))). P v"
          using "2.IH" [OF \<open>u \<notin> visitedUrls s\<close> refl Response _ refl refl refl d2 ls "2.prems"(3)] True
          by simp
        with \<open>u \<notin> visitedUrls s\<close> Response True show ?thesis by (simp add: Let_def)
      qed
    qed
  qed
next
  case (3 n fetch s)
  then show ?case by simp
next
  case (4 n fetch link links s)
  from "4.prems"(2) have l: "P link" and ls: "\<forall>l\<in>set links. P l" by simp_all
  show ?case
  proof (cases "link \<in> visitedUrls s")
    case True
    with "4.IH"(3) [OF _ "4.prems"(1) ls "4.prems"(3)] show ?thesis by simp
  next
    case False
    have a: "\<forall>v\<in>set (requests (state_of (explorePage n fetch link s))). P v"
      using "4.IH"(1) [OF False "4.prems"(1) l "4.prems"(3)] .
    show ?thesis
    proof (cases "explorePage n fetch link s")
      case (OutOfFuel s')
      with a False show ?thesis by simp
    next
      case (Returned s')
      with a have "\<forall>v\<in>set (requests s'). P v" by simp
      from "4.IH"(2) [OF False Returned this ls "4.prems"(3)] False Returned
      show ?thesis by simp
    qed
  qed
qed

lemma crawl_requests_domain:
  "\<forall>v\<in>set (requests (state_of (exploreAllPages n fetch))). includes_str v ''gytx.dev''"
proof -
  have root: "includes_str baseUrl ''gytx.dev''" by code_simp
  have start: "\<forall>v\<in>set (requests newReader). includes_str v ''gytx.dev''"
    by (simp add: newReader_def)
  have links: "\<forall>c data. \<forall>l\<in>set (findLinksToExplore data c). includes_str l ''gytx.dev''"
    using findLinksToExplore_domain by blast
  show ?thesis
    unfolding exploreAllPages_def
    using requests_pred(1) [where P = "\<lambda>v. includes_str v ''gytx.dev''", OF start root links] .
qed

subsection \<open>Termination\<close>

lemma card_Diff_insert_less:
  assumes "finite U" "u \<in> U" "u \<notin> V" "card (U - V) < Suc n"
  shows "card (U - insert u V) < n"
proof -
  have "U - insert u V = (U - V) - {u}" by auto
  moreover have "u \<in> U - V" using assms by simp
  moreover have "finite (U - V)" using assms by simp
  ultimately have "card (U - insert u V) = card (U - V) - 1" by (simp add: card_Diff_singleton)
  moreover have "0 < card (U - V)" using \<open>u \<in> U - V\<close> \<open>finite (U - V)\<close> by (auto simp: card_gt_0_iff)
  ultimately show ?thesis using assms(4) by simp
qed

lemma explore_returns:
  shows "finite U \<Longrightarrow> \<forall>u\<in>U. set (links_of fetch u) \<subseteq> U \<Longrightarrow>
         u \<in> U \<Longrightarrow> card (U - visitedUrls s) < n \<Longrightarrow>
           \<exists>s'. explorePage n fetch u s = Returned s' \<and> visitedUrls s \<subseteq> visitedUrls s'"
    and "finite U \<Longrightarrow> \<forall>u\<in>U. set (links_of fetch u) \<subseteq> U \<Longrightarrow>
         set ls \<subseteq> U \<Longrightarrow> card (U - visitedUrls s) < n \<Longrightarrow>
           \<exists>s'. exploreLinks n fetch ls s = Returned s' \<and> visitedUrls s \<subseteq> visitedUrls s'"
proof (induction n fetch u s and n fetch ls s rule: explorePage_exploreLinks.induct)
  case (1 fetch u s)
  then show ?case by simp
next
  case (2 n fetch u s)
  show ?case
  proof (cases "u \<in> visitedUrls s")
    case True
    then show ?thesis by simp
  next
    case False
    let ?s1 = "s\<lparr>visitedUrls := insert u (visitedUrls s), requests := requests s @ [u]\<rparr>"
    note fin = "2.prems"(1) and closed = "2.prems"(2)
    have c1: "card (U - visitedUrls ?s1) < n"
      using card_Diff_insert_less [OF fin "2.prems"(3) False "2.prems"(4)] by simp
    show ?thesis
    proof (cases "fetch u")
      case TransportError
      with False show ?thesis by auto
    next
      case (Response status data)
      show ?thesis
      proof (cases "status = 200")
        case False
        with \<open>u \<notin> visitedUrls s\<close> Response show ?thesis by auto
      next
        case True
        let ?s2 = "?s1\<lparr>allWireframes := allWireframes ?s1 @ parseWireframes data (Some u)\<rparr>"
        have sub: "set (findLinksToExplore data u) \<subseteq> U"
          using closed "2.prems"(3) Response True unfolding links_of_def by fastforce
        have c2: "card (U - visitedUrls ?s2) < n" using c1 by simp
        obtain s' where "exploreLinks n fetch (findLinksToExplore data u) ?s2 = Returned s'"
          "visitedUrls ?s2 \<subseteq> visitedUrls s'"
          using "2.IH" [OF \<open>u \<notin> visitedUrls s\<close> refl Response _ refl refl refl fin closed sub c2] True by auto
        with \<open>u \<notin> visitedUrls s\<close> Response True show ?thesis by (auto simp: Let_def)
      qed
    qed
  qed
next
  case (3 n fetch s)
  then show ?case by simp
next
  case (4 n fetch link links s)
  show ?case
  proof (cases "link \<in> visitedUrls s")
    case True
    with 4 show ?thesis by simp
  next
    case False
    note fin = "4.prems"(1) and closed = "4.prems"(2)
    from "4.prems" have l: "link \<in> U" and ls: "set links \<subseteq> U" by auto
    obtain s1 where r1: "explorePage n fetch link s = Returned s1"
      and m1: "visitedUrls s \<subseteq> visitedUrls s1"
      using "4.IH"(1) [OF False fin closed l "4.prems"(4)] by auto
    have "U - visitedUrls s1 \<subseteq> U - visitedUrls s" using m1 by auto
    then have "card (U - visitedUrls s1) \<le> card (U - visitedUrls s)"
      using fin by (intro card_mono) auto
    then have c1: "card (U - visitedUrls s1) < n" using "4.prems"(4) by simp
    obtain s2 where "exploreLinks n fetch links s1 = Returned s2"
      "visitedUrls s1 \<subseteq> visitedUrls s2"
      using "4.IH"(2) [OF False r1 fin closed ls c1] by auto
    with False r1 m1 show ?thesis by auto
  qed
qed

lemma reachable_root: "baseUrl \<in> reachable fetch"
  by (simp add: reachable_def)

lemma reachable_closed: "u \<in> reachable fetch \<Longrightarrow> set (links_of fetch u) \<subseteq> reachable fetch"
  unfolding reachable_def by (auto intro: rtrancl_into_rtrancl)

lemma reachable_least:
  assumes "baseUrl \<in> U" and "\<forall>u\<in>U. set (links_of fetch u) \<subseteq> U"
  shows "reachable fetch \<subseteq> U"
proof
  fix v assume "v \<in> reachable fetch"
  then have "(baseUrl, v) \<in> {(u, v). v \<in> set (links_of fetch u)}\<^sup>*"
    by (simp add: reachable_def)
  then show "v \<in> U"
    by (induction rule: rtrancl_induct) (use assms in auto)
qed

lemma crawl_returns:
  assumes "finite (reachable fetch)"
  shows "\<exists>s. exploreAllPages (Suc (card (reachable fetch))) fetch = Returned s"
proof -
  have "card (reachable fetch - visitedUrls newReader) < Suc (card (reachable fetch))"
    by (simp add: newReader_def)
  moreover have "\<forall>u\<in>reachable fetch. set (links_of fetch u) \<subseteq> reachable fetch"
    using reachable_closed by blast
  ultimately show ?thesis
    unfolding exploreAllPages_def
    using explore_returns(1) [OF assms _ reachable_root] by blast
qed

lemma cyclic_site_reachable: "reachable cyclic_site \<subseteq> {baseUrl, page2Url}"
proof (rule reachable_least)
  show "baseUrl \<in> {baseUrl, page2Url}" by simp
  have "set (links_of cyclic_site baseUrl) \<subseteq> {baseUrl, page2Url}" by code_simp
  moreover have "set (links_of cyclic_site page2Url) \<subseteq> {baseUrl, page2Url}" by code_simp
  ultimately show "\<forall>u\<in>{baseUrl, page2Url}. set (links_of cyclic_site u) \<subseteq> {baseUrl, page2Url}"
    by simp
qed

text \<open>
  C2. When finitely many URLs are reachable from the root along the links that the crawl
  follows, \<^verbatim>\<open>exploreAllPages\<close> returns: a depth of one more than the number of reachable
  URLs is enough.
\<close>

theorem crawl_terminates_on_finite_graph:
  "finite (reachable fetch) \<Longrightarrow>
     \<exists>s. exploreAllPages (Suc (card (reachable fetch))) fetch = Returned s"
proof -
  assume fin: "finite (reachable fetch)"
  have budget: "card (reachable fetch - visitedUrls newReader) < Suc (card (reachable fetch))"
    by (simp add: newReader_def)
  have closed: "\<forall>u\<in>reachable fetch. set (links_of fetch u) \<subseteq> reachable fetch"
    using reachable_closed by blast
  from explore_returns(1) [OF fin closed reachable_root budget]
  show ?thesis unfolding exploreAllPages_def by blast
qed

theorem crawl_terminates_on_finite_graph_witness:
  "finite (reachable cyclic_site)
   \<and> (\<exists>s. exploreAllPages (Suc (card (reachable cyclic_site))) cyclic_site = Returned s)"
proof -
  have fin: "finite (reachable cyclic_site)"
    using cyclic_site_reachable by (rule finite_subset) simp
  from crawl_terminates_on_finite_graph [OF fin] fin show ?thesis by simp
qed

subsection \<open>Asset recognition\<close>

text \<open>
  C5. \<^verbatim>\<open>isWireframeFile\<close> holds exactly when the lowercased URL contains one of the six
  extensions or one of the seven keywords; either alone is enough.
\<close>

theorem isWireframeFile_iff:
  "isWireframeFile u \<longleftrightarrow>
     (\<exists>ext \<in> set [''.png'', ''.jpg'', ''.jpeg'', ''.gif'', ''.svg'', ''.pdf''].
        includes_str (toLowerCase u) ext)
     \<or> (\<exists>keyword \<in> set [''wireframe'', ''mockup'', ''design'', ''ui'', ''ux'', ''screen'', ''pog''].
          includes_str (toLowerCase u) keyword)"
  unfolding isWireframeFile_def some_def wireframeExtensions_def wireframeKeywords_def Let_def
  by (simp only: list_ex_iff) auto

theorem isWireframeFile_iff_witness:
  "isWireframeFile ''/MockUp'' \<and> isWireframeFile ''a.PNG''
   \<and> isWireframeFile (''MOC'' @ kelvin_sign @ ''UP'')
   \<and> isWireframeFile (''U'' @ capital_I_with_dot)
   \<and> \<not> isWireframeFile ''index.html''"
proof -
  have k: "includes_str (toLowerCase ''/MockUp'') ''mockup''" by code_simp
  have e: "includes_str (toLowerCase ''a.PNG'') ''.png''" by code_simp
  have m: "includes_str (toLowerCase (''MOC'' @ kelvin_sign @ ''UP'')) ''mockup''" by code_simp
  have d: "includes_str (toLowerCase (''U'' @ capital_I_with_dot)) ''ui''" by code_simp
  have n: "\<not> ((\<exists>ext \<in> set [''.png'', ''.jpg'', ''.jpeg'', ''.gif'', ''.svg'', ''.pdf''].
        includes_str (toLowerCase ''index.html'') ext)
     \<or> (\<exists>keyword \<in> set [''wireframe'', ''mockup'', ''design'', ''ui'', ''ux'', ''screen'', ''pog''].
          includes_str (toLowerCase ''index.html'') keyword))" by code_simp
  have "isWireframeFile ''/MockUp''"
    by (rule iffD2 [OF isWireframeFile_iff]) (use k in simp)
  moreover have "isWireframeFile ''a.PNG''"
    by (rule iffD2 [OF isWireframeFile_iff]) (use e in simp)
  moreover have "isWireframeFile (''MOC'' @ kelvin_sign @ ''UP'')"
    by (rule iffD2 [OF isWireframeFile_iff]) (use m in simp)
  moreover have "isWireframeFile (''U'' @ capital_I_with_dot)"
    by (rule iffD2 [OF isWireframeFile_iff]) (use d in simp)
  moreover have "\<not> isWireframeFile ''index.html''"
    using n isWireframeFile_iff [of "''index.html''"] by blast
  ultimately show ?thesis by blast
qed

subsection \<open>Domain isolation\<close>

text \<open>
  C3. The domain check of \<^verbatim>\<open>shouldExploreLink\<close> and \<^verbatim>\<open>isValidPaginationLink\<close> is the
  substring test \<^verbatim>\<open>url.includes('gytx.dev')\<close>. Every request of a run passes it
  (\<open>crawl_requests_domain\<close>), but a URL on another host passes it too when the domain name
  occurs in its path: on \<open>external_site\<close> the crawl requests
  \<^verbatim>\<open>https://otherhost.com/gytx.dev/\<close>.
\<close>

theorem external_host_is_fetched:
  "shouldExploreLink ''https://otherhost.com/gytx.dev/'' baseUrl
   \<and> requests (state_of (exploreAllPages 2 external_site))
       = [baseUrl, ''https://otherhost.com/gytx.dev/'']"
  by code_simp

text \<open>
  The claim C4 as stated fails: on \<open>offsite_asset_site\<close> the link to the image on the other
  host is added to the inventory.
\<close>

theorem offsite_asset_counterexample:
  "\<not> includes_str ''https://otherhost.com/image.png'' ''gytx.dev''
   \<and> allWireframes (state_of (exploreAllPages 1 offsite_asset_site))
       = [\<lparr>name = ''image.png'', url = ''https://otherhost.com/image.png'', type = TypeImage,
            description = Some []\<rparr>]"
  by code_simp

text \<open>The records of a page answered with status 200 stay in the inventory of the run.\<close>

lemma recorded_inv_kept:
  "recorded_inv fetch s \<Longrightarrow> recorded_inv fetch (state_of (explorePage n fetch u s))"
  "recorded_inv fetch s \<Longrightarrow> recorded_inv fetch (state_of (exploreLinks n fetch ls s))"
proof (induction n fetch u s and n fetch ls s rule: explorePage_exploreLinks.induct)
  case (1 fetch u s)
  then show ?case by simp
next
  case (2 n fetch u s)
  show ?case
  proof (cases "u \<in> visitedUrls s")
    case True
    with "2.prems" show ?thesis by simp
  next
    case False
    let ?s1 = "s\<lparr>visitedUrls := insert u (visitedUrls s), requests := requests s @ [u]\<rparr>"
    show ?thesis
    proof (cases "fetch u")
      case TransportError
      then have "recorded_inv fetch ?s1"
        using "2.prems" by (auto simp: recorded_inv_def)
      with False TransportError show ?thesis by simp
    next
      case (Response status data)
      show ?thesis
      proof (cases "status = 200")
        case False
        then have "recorded_inv fetch ?s1"
          using "2.prems" Response by (auto simp: recorded_inv_def)
        with \<open>u \<notin> visitedUrls s\<close> Response False show ?thesis by simp
      next
        case True
        let ?s2 = "?s1\<lparr>allWireframes := allWireframes ?s1 @ parseWireframes data (Some u)\<rparr>"
        have "recorded_inv fetch ?s2"
          using "2.prems" Response by (auto simp: recorded_inv_def)
        then have "recorded_inv fetch
                     (state_of (exploreLinks n fetch (findLinksToExplore data u) ?s2))"
          using "2.IH" [OF \<open>u \<notin> visitedUrls s\<close> refl Response _ refl refl refl] True by simp
        with \<open>u \<notin> visitedUrls s\<close> Response True show ?thesis by (simp add: Let_def)
      qed
    qed
  qed
next
  case (3 n fetch s)
  then show ?case by simp
next
  case (4 n fetch link links s)
  show ?case
  proof (cases "link \<in> visitedUrls s")
    case True
    with "4.IH"(3) [OF _ "4.prems"] show ?thesis by simp
  next
    case False
    have a: "recorded_inv fetch (state_of (explorePage n fetch link s))"
      using "4.IH"(1) [OF False "4.prems"] .
    show ?thesis
    proof (cases "explorePage n fetch link s")
      case (OutOfFuel s')
      with a False show ?thesis by simp
    next
      case (Returned s')
      with a have "recorded_inv fetch s'" by simp
      from "4.IH"(2) [OF False Returned this] False Returned show ?thesis by simp
    qed
  qed
qed

lemma crawl_records_pages:
  assumes "u \<in> set (requests (state_of (exploreAllPages n fetch)))"
    and "fetch u = Response 200 data"
  shows "set (parseWireframes data (Some u))
           \<subseteq> set (allWireframes (state_of (exploreAllPages n fetch)))"
proof -
  have "recorded_inv fetch newReader" by (simp add: recorded_inv_def newReader_def)
  then have "recorded_inv fetch (state_of (exploreAllPages n fetch))"
    unfolding exploreAllPages_def by (rule recorded_inv_kept(1))
  with assms show ?thesis unfolding recorded_inv_def by blast
qed

text \<open>
  C4 (amended). A link whose resolved URL does not contain \<^verbatim>\<open>gytx.dev\<close> is never scheduled
  by \<^verbatim>\<open>findLinksToExplore\<close> and never requested by the crawl. Asset extraction has no
  domain test: when the link stands on a page that the crawl requested and that answered
  with status 200, and it is an anchor whose \<^verbatim>\<open>href\<close> contains a dot and passes
  \<^verbatim>\<open>isWireframeFile\<close>, or an image whose \<^verbatim>\<open>src\<close> passes it, then the inventory of the run
  has a record with its resolved URL.
\<close>

theorem offsite_link_not_followed_but_recorded:
  assumes "\<not> includes_str (resolveUrl href (Some cur)) ''gytx.dev''"
  shows "resolveUrl href (Some cur) \<notin> set (findLinksToExplore doc cur)
     \<and> resolveUrl href (Some cur) \<notin> set (requests (state_of (exploreAllPages n fetch)))
     \<and> (cur \<in> set (requests (state_of (exploreAllPages n fetch)))
          \<and> fetch cur = Response 200 data
          \<and> el \<in> set data \<and> tag el = ''a'' \<and> attr el ''href'' = Some href
          \<and> includes_str href ''.'' \<and> isWireframeFile href
        \<longrightarrow> resolveUrl href (Some cur)
              \<in> url ` set (allWireframes (state_of (exploreAllPages n fetch))))
     \<and> (cur \<in> set (requests (state_of (exploreAllPages n fetch)))
          \<and> fetch cur = Response 200 data
          \<and> el \<in> set data \<and> tag el = ''img'' \<and> attr el ''src'' = Some href
          \<and> href \<noteq> [] \<and> isWireframeFile href
        \<longrightarrow> resolveUrl href (Some cur)
              \<in> url ` set (allWireframes (state_of (exploreAllPages n fetch))))"
proof (intro conjI impI)
  show "resolveUrl href (Some cur) \<notin> set (findLinksToExplore doc cur)"
    using assms findLinksToExplore_domain by blast
  show "resolveUrl href (Some cur) \<notin> set (requests (state_of (exploreAllPages n fetch)))"
    using assms crawl_requests_domain by blast
next
  assume a: "cur \<in> set (requests (state_of (exploreAllPages n fetch)))
          \<and> fetch cur = Response 200 data
          \<and> el \<in> set data \<and> tag el = ''a'' \<and> attr el ''href'' = Some href
          \<and> includes_str href ''.'' \<and> isWireframeFile href"
  then have "href \<noteq> []" by auto
  with a obtain r where "r \<in> set (anchorWireframes (Some cur) el)"
    and u: "url r = resolveUrl href (Some cur)"
    unfolding anchorWireframes_mem by simp
  with a have "r \<in> set (parseWireframes data (Some cur))" unfolding parseWireframes_mem by blast
  moreover have "set (parseWireframes data (Some cur))
                   \<subseteq> set (allWireframes (state_of (exploreAllPages n fetch)))"
    using a crawl_records_pages by blast
  ultimately have "r \<in> set (allWireframes (state_of (exploreAllPages n fetch)))" by blast
  with u show "resolveUrl href (Some cur)
              \<in> url ` set (allWireframes (state_of (exploreAllPages n fetch)))"
    by force
next
  assume a: "cur \<in> set (requests (state_of (exploreAllPages n fetch)))
          \<and> fetch cur = Response 200 data
          \<and> el \<in> set data \<and> tag el = ''img'' \<and> attr el ''src'' = Some href
          \<and> href \<noteq> [] \<and> isWireframeFile href"
  then obtain r where "r \<in> set (imgWireframes (Some cur) el)"
    and u: "url r = resolveUrl href (Some cur)"
    unfolding imgWireframes_mem by simp
  with a have "r \<in> set (parseWireframes data (Some cur))" unfolding parseWireframes_mem by blast
  moreover have "set (parseWireframes data (Some cur))
                   \<subseteq> set (allWireframes (state_of (exploreAllPages n fetch)))"
    using a crawl_records_pages by blast
  ultimately have "r \<in> set (allWireframes (state_of (exploreAllPages n fetch)))" by blast
  with u show "resolveUrl href (Some cur)
              \<in> url ` set (allWireframes (state_of (exploreAllPages n fetch)))"
    by force
qed

theorem offsite_link_not_followed_but_recorded_witness:
  "\<not> includes_str (resolveUrl ''https://otherhost.com/image.png'' (Some baseUrl)) ''gytx.dev''
   \<and> resolveUrl ''https://otherhost.com/image.png'' (Some baseUrl)
        \<notin> set (requests (state_of (exploreAllPages 1 offsite_asset_site)))
   \<and> baseUrl \<in> set (requests (state_of (exploreAllPages 1 offsite_asset_site)))
   \<and> offsite_asset_site baseUrl = Response 200 [anchor_el ''https://otherhost.com/image.png'']
   \<and> resolveUrl ''https://otherhost.com/image.png'' (Some baseUrl)
        \<in> url ` set (allWireframes (state_of (exploreAllPages 1 offsite_asset_site)))"
proof -
  let ?h = "''https://otherhost.com/image.png''"
  have h: "\<not> includes_str (resolveUrl ?h (Some baseUrl)) ''gytx.dev''" by code_simp
  have q: "baseUrl \<in> set (requests (state_of (exploreAllPages 1 offsite_asset_site)))"
    by code_simp
  have f: "offsite_asset_site baseUrl = Response 200 [anchor_el ?h]"
    by (simp add: offsite_asset_site_def)
  have e: "anchor_el ?h \<in> set [anchor_el ?h] \<and> tag (anchor_el ?h) = ''a''
           \<and> attr (anchor_el ?h) ''href'' = Some ?h \<and> includes_str ?h ''.'' \<and> isWireframeFile ?h"
    by code_simp
  from offsite_link_not_followed_but_recorded
         [where href = ?h and cur = baseUrl and n = 1 and fetch = offsite_asset_site
            and data = "[anchor_el ?h]" and el = "anchor_el ?h", OF h] q f e h
  show ?thesis by blast
qed

subsection \<open>The kind of an asset record\<close>

text \<open>Every record of the inventory was produced by \<^verbatim>\<open>parseWireframes\<close> from a fetched page.\<close>

lemma inventory_pred:
  "(\<forall>r\<in>set (allWireframes s). Q r) \<Longrightarrow>
   (\<forall>c st data. fetch c = Response st data \<longrightarrow> st = 200 \<longrightarrow>
        (\<forall>r\<in>set (parseWireframes data (Some c)). Q r)) \<Longrightarrow>
     \<forall>r\<in>set (allWireframes (state_of (explorePage n fetch u s))). Q r"
  "(\<forall>r\<in>set (allWireframes s). Q r) \<Longrightarrow>
   (\<forall>c st data. fetch c = Response st data \<longrightarrow> st = 200 \<longrightarrow>
        (\<forall>r\<in>set (parseWireframes data (Some c)). Q r)) \<Longrightarrow>
     \<forall>r\<in>set (allWireframes (state_of (exploreLinks n fetch ls s))). Q r"
proof (induction n fetch u s and n fetch ls s rule: explorePage_exploreLinks.induct)
  case (1 fetch u s)
  then show ?case by simp
next
  case (2 n fetch u s)
  show ?case
  proof (cases "u \<in> visitedUrls s")
    case True
    with "2.prems"(1) show ?thesis by simp
  next
    case False
    let ?s1 = "s\<lparr>visitedUrls := insert u (visitedUrls s), requests := requests s @ [u]\<rparr>"
    have d1: "\<forall>r\<in>set (allWireframes ?s1). Q r" using "2.prems"(1) by simp
    show ?thesis
    proof (cases "fetch u")
      case TransportError
      with False d1 show ?thesis by simp
    next
      case (Response status data)
      show ?thesis
      proof (cases "status = 200")
        case False
        with \<open>u \<notin> visitedUrls s\<close> Response d1 show ?thesis by simp
      next
        case True
        let ?s2 = "?s1\<lparr>allWireframes := allWireframes ?s1 @ parseWireframes data (Some u)\<rparr>"
        have "\<forall>r\<in>set (parseWireframes data (Some u)). Q r"
          using "2.prems"(2) Response True by blast
        then have d2: "\<forall>r\<in>set (allWireframes ?s2). Q r" using d1 by auto
        have "\<forall>r\<in>set (allWireframes (state_of (exploreLinks n fetch (findLinksToExplore data u) ?s2))). Q r"
          using "2.IH" [OF \<open>u \<notin> visitedUrls s\<close> refl Response _ refl refl refl d2 "2.prems"(2)] True
          by simp
        with \<open>u \<notin> visitedUrls s\<close> Response True show ?thesis by (simp add: Let_def)
      qed
    qed
  qed
next
  case (3 n fetch s)
  then show ?case by simp
next
  case (4 n fetch link links s)
  show ?case
  proof (cases "link \<in> visitedUrls s")
    case True
    with "4.IH"(3) [OF _ "4.prems"(1) "4.prems"(2)] show ?thesis by simp
  next
    case False
    have a: "\<forall>r\<in>set (allWireframes (state_of (explorePage n fetch link s))). Q r"
      using "4.IH"(1) [OF False "4.prems"(1) "4.prems"(2)] .
    show ?thesis
    proof (cases "explorePage n fetch link s")
      case (OutOfFuel s')
      with a False show ?thesis by simp
    next
      case (Returned s')
      with a have "\<forall>r\<in>set (allWireframes s'). Q r" by simp
      from "4.IH"(2) [OF False Returned this "4.prems"(2)] False Returned
      show ?thesis by simp
    qed
  qed
qed

lemma inventory_from_pages:
  "r \<in> set (allWireframes (state_of (exploreAllPages n fetch))) \<Longrightarrow>
     \<exists>u data. fetch u = Response 200 data \<and> r \<in> set (parseWireframes data (Some u))"
proof -
  let ?Q = "\<lambda>r. \<exists>u data. fetch u = Response 200 data \<and> r \<in> set (parseWireframes data (Some u))"
  have start: "\<forall>r\<in>set (allWireframes newReader). ?Q r" by (simp add: newReader_def)
  have pages: "\<forall>c st data. fetch c = Response st data \<longrightarrow> st = 200 \<longrightarrow>
        (\<forall>r\<in>set (parseWireframes data (Some c)). ?Q r)" by blast
  have "\<forall>r\<in>set (allWireframes (state_of (exploreAllPages n fetch))). ?Q r"
    unfolding exploreAllPages_def using inventory_pred(1) [where Q = ?Q, OF start pages] .
  then show "r \<in> set (allWireframes (state_of (exploreAllPages n fetch))) \<Longrightarrow> ?Q r" by blast
qed

lemma getFileType_cases:
  "(getFileType h = TypeImage \<longleftrightarrow>
      (\<exists>ext\<in>set [''.png'', ''.jpg'', ''.jpeg'', ''.gif'', ''.svg'']. includes_str (toLowerCase h) ext))
   \<and> (getFileType h = TypePage \<longleftrightarrow>
      \<not> (\<exists>ext\<in>set [''.png'', ''.jpg'', ''.jpeg'', ''.gif'', ''.svg'']. includes_str (toLowerCase h) ext)
      \<and> includes_str (toLowerCase h) ''.pdf'')
   \<and> (getFileType h = TypeUnknown \<longleftrightarrow>
      \<not> (\<exists>ext\<in>set [''.png'', ''.jpg'', ''.jpeg'', ''.gif'', ''.svg'', ''.pdf'']. includes_str (toLowerCase h) ext))"
  unfolding getFileType_def Let_def by simp

text \<open>
  The claim C6 as stated fails for image sources: on \<open>failing_site\<close> the image with source
  \<^verbatim>\<open>/mockup\<close>, an asset by keyword only, is recorded with kind \<open>TypeImage\<close>.
\<close>

theorem img_kind_counterexample:
  "allWireframes (state_of (exploreAllPages 2 failing_site))
     = [\<lparr>name = ''mockup'', url = ''https://gytx.dev/mockup'', type = TypeImage, description = Some []\<rparr>]
   \<and> getFileType ''https://gytx.dev/mockup'' = TypeUnknown
   \<and> isWireframeFile ''https://gytx.dev/mockup''"
  by code_simp

text \<open>
  C6 (amended). Every record of the inventory comes from an element of a fetched page.
  When it comes from an anchor, its kind is decided by the extensions in the \<^verbatim>\<open>href\<close>:
  \<open>TypeImage\<close> exactly when the lowercased \<^verbatim>\<open>href\<close> contains an image extension, \<open>TypePage\<close> (the
  document kind) exactly when it contains none but contains \<^verbatim>\<open>.pdf\<close>, \<open>TypeUnknown\<close> exactly
  when it contains none of the six. When it comes from an image source, its kind is \<open>TypeImage\<close>.
\<close>

theorem record_kind:
  assumes "r \<in> set (allWireframes (state_of (exploreAllPages n fetch)))"
  shows "\<exists>u data. fetch u = Response 200 data \<and>
     ((\<exists>el\<in>set data. \<exists>h. tag el = ''a'' \<and> attr el ''href'' = Some h
          \<and> url r = resolveUrl h (Some u)
          \<and> (type r = TypeImage \<longleftrightarrow>
               (\<exists>ext\<in>set [''.png'', ''.jpg'', ''.jpeg'', ''.gif'', ''.svg''].
                   includes_str (toLowerCase h) ext))
          \<and> (type r = TypePage \<longleftrightarrow>
               \<not> (\<exists>ext\<in>set [''.png'', ''.jpg'', ''.jpeg'', ''.gif'', ''.svg''].
                   includes_str (toLowerCase h) ext)
               \<and> includes_str (toLowerCase h) ''.pdf'')
          \<and> (type r = TypeUnknown \<longleftrightarrow>
               \<not> (\<exists>ext\<in>set [''.png'', ''.jpg'', ''.jpeg'', ''.gif'', ''.svg'', ''.pdf''].
                   includes_str (toLowerCase h) ext)))
      \<or> (\<exists>el\<in>set data. \<exists>h. tag el = ''img'' \<and> attr el ''src'' = Some h
          \<and> url r = resolveUrl h (Some u) \<and> type r = TypeImage))"
proof -
  from inventory_from_pages [OF assms] obtain u data
    where f: "fetch u = Response 200 data" and r: "r \<in> set (parseWireframes data (Some u))"
    by blast
  from r consider
      (anchor) el where "el \<in> set data" "tag el = ''a''" "r \<in> set (anchorWireframes (Some u) el)"
    | (img) el where "el \<in> set data" "tag el = ''img''" "r \<in> set (imgWireframes (Some u) el)"
    unfolding parseWireframes_mem by blast
  then show ?thesis
  proof cases
    case anchor
    from anchor(3) obtain h where h: "attr el ''href'' = Some h" "url r = resolveUrl h (Some u)"
      "type r = getFileType h"
      unfolding anchorWireframes_mem by auto
    from getFileType_cases [of h] h(3) have
      "(type r = TypeImage \<longleftrightarrow>
               (\<exists>ext\<in>set [''.png'', ''.jpg'', ''.jpeg'', ''.gif'', ''.svg''].
                   includes_str (toLowerCase h) ext))
          \<and> (type r = TypePage \<longleftrightarrow>
               \<not> (\<exists>ext\<in>set [''.png'', ''.jpg'', ''.jpeg'', ''.gif'', ''.svg''].
                   includes_str (toLowerCase h) ext)
               \<and> includes_str (toLowerCase h) ''.pdf'')
          \<and> (type r = TypeUnknown \<longleftrightarrow>
               \<not> (\<exists>ext\<in>set [''.png'', ''.jpg'', ''.jpeg'', ''.gif'', ''.svg'', ''.pdf''].
                   includes_str (toLowerCase h) ext))"
      by (simp only:)
    with f anchor(1,2) h(1,2) show ?thesis by blast
  next
    case img
    from img(3) obtain h where h: "attr el ''src'' = Some h" "url r = resolveUrl h (Some u)"
      "type r = TypeImage"
      unfolding imgWireframes_mem by auto
    with f img(1,2) show ?thesis by blast
  qed
qed

theorem record_kind_witness:
  "mockup_record \<in> set (allWireframes (state_of (exploreAllPages 2 failing_site)))
   \<and> (\<exists>u data. failing_site u = Response 200 data \<and>
     ((\<exists>el\<in>set data. \<exists>h. tag el = ''a'' \<and> attr el ''href'' = Some h
          \<and> url mockup_record = resolveUrl h (Some u)
          \<and> (type mockup_record = TypeImage \<longleftrightarrow>
               (\<exists>ext\<in>set [''.png'', ''.jpg'', ''.jpeg'', ''.gif'', ''.svg''].
                   includes_str (toLowerCase h) ext))
          \<and> (type mockup_record = TypePage \<longleftrightarrow>
               \<not> (\<exists>ext\<in>set [''.png'', ''.jpg'', ''.jpeg'', ''.gif'', ''.svg''].
                   includes_str (toLowerCase h) ext)
               \<and> includes_str (toLowerCase h) ''.pdf'')
          \<and> (type mockup_record = TypeUnknown \<longleftrightarrow>
               \<not> (\<exists>ext\<in>set [''.png'', ''.jpg'', ''.jpeg'', ''.gif'', ''.svg'', ''.pdf''].
                   includes_str (toLowerCase h) ext)))
      \<or> (\<exists>el\<in>set data. \<exists>h. tag el = ''img'' \<and> attr el ''src'' = Some h
          \<and> url mockup_record = resolveUrl h (Some u) \<and> type mockup_record = TypeImage)))"
proof -
  have m: "mockup_record \<in> set (allWireframes (state_of (exploreAllPages 2 failing_site)))"
    by code_simp
  show ?thesis
    by (rule conjI [OF m record_kind [OF m]])
qed

subsection \<open>The URL resolver\<close>

text \<open>
  The claim C7 as stated fails when the base is the empty string: \<^verbatim>\<open>baseUrl || this.baseUrl\<close>
  takes the root URL, not the empty base.
\<close>

theorem resolveUrl_empty_base_counterexample:
  "resolveUrl ''page2/'' (Some []) = ''https://gytx.dev/wareframes/pog_up_wareframes/page2/''
   \<and> resolveUrl ''page2/'' (Some []) \<noteq> [] @ ''page2/''"
  by code_simp

text \<open>
  C7 (amended). \<^verbatim>\<open>resolveUrl\<close> returns the reference unchanged when it starts with
  \<^verbatim>\<open>http\<close>; otherwise, when it starts with a slash, the origin \<^verbatim>\<open>https://gytx.dev\<close>
  followed by the reference; otherwise the base followed by the reference, where the root
  URL is the base when none is given or when the given base is empty. It is a total
  function: it returns a string for every input.
\<close>

theorem resolveUrl_cases:
  "((\<exists>rest. reference = ''http'' @ rest) \<longrightarrow> resolveUrl reference base = reference)
   \<and> (\<not> (\<exists>rest. reference = ''http'' @ rest) \<and> (\<exists>rest. reference = ''/'' @ rest) \<longrightarrow>
        resolveUrl reference base = ''https://gytx.dev'' @ reference)
   \<and> (\<not> (\<exists>rest. reference = ''http'' @ rest) \<and> \<not> (\<exists>rest. reference = ''/'' @ rest) \<longrightarrow>
        resolveUrl reference base =
          (if base = None \<or> base = Some [] then baseUrl else the base) @ reference)"
  unfolding resolveUrl_def startsWith_iff by (cases base) simp_all

theorem resolveUrl_cases_witness:
  "resolveUrl ''https://gytx.dev/a.png'' (Some page2Url) = ''https://gytx.dev/a.png''
   \<and> resolveUrl ''/foo.png'' (Some page2Url) = ''https://gytx.dev/foo.png''
   \<and> resolveUrl ''sub/'' (Some page2Url) = page2Url @ ''sub/''
   \<and> resolveUrl ''sub/'' None = baseUrl @ ''sub/''
   \<and> resolveUrl ''sub/'' (Some []) = baseUrl @ ''sub/''"
proof -
  have a: "\<exists>rest. ''https://gytx.dev/a.png'' = ''http'' @ rest" by simp
  have b: "\<not> (\<exists>rest. ''/foo.png'' = ''http'' @ rest) \<and> (\<exists>rest. ''/foo.png'' = ''/'' @ rest)" by simp
  have c: "\<not> (\<exists>rest. ''sub/'' = ''http'' @ rest) \<and> \<not> (\<exists>rest. ''sub/'' = ''/'' @ rest)" by simp
  have n: "page2Url \<noteq> []" by (simp add: page2Url_def)
  from resolveUrl_cases [of "''https://gytx.dev/a.png''" "Some page2Url"] a
  have 1: "resolveUrl ''https://gytx.dev/a.png'' (Some page2Url) = ''https://gytx.dev/a.png''" by blast
  from resolveUrl_cases [of "''/foo.png''" "Some page2Url"] b
  have 2: "resolveUrl ''/foo.png'' (Some page2Url) = ''https://gytx.dev/foo.png''" by simp
  from resolveUrl_cases [of "''sub/''" "Some page2Url"] c n
  have 3: "resolveUrl ''sub/'' (Some page2Url) = page2Url @ ''sub/''" by simp
  from resolveUrl_cases [of "''sub/''" None] c
  have 4: "resolveUrl ''sub/'' None = baseUrl @ ''sub/''" by simp
  from resolveUrl_cases [of "''sub/''" "Some []"] c
  have 5: "resolveUrl ''sub/'' (Some []) = baseUrl @ ''sub/''" by simp
  from 1 2 3 4 5 show ?thesis by blast
qed

subsection \<open>Overlap of the classes\<close>

text \<open>
  The claim C8 as stated fails: on \<open>overlap_site\<close> the URL of \<^verbatim>\<open>design.html\<close> is recorded in
  the inventory and requested, and the URL of \<^verbatim>\<open>list.php?page=2\<close> is produced as a link to
  explore and as a pagination link.
\<close>

theorem double_classification_counterexample:
  "map url (allWireframes (state_of (exploreAllPages 2 overlap_site)))
     = [''https://gytx.dev/wareframes/pog_up_wareframes/design.html'']
   \<and> requests (state_of (exploreAllPages 2 overlap_site))
     = [baseUrl, ''https://gytx.dev/wareframes/pog_up_wareframes/design.html'',
        ''https://gytx.dev/wareframes/pog_up_wareframes/list.php?page=2'']
   \<and> exploreLink baseUrl (anchor_el ''list.php?page=2'')
     = [''https://gytx.dev/wareframes/pog_up_wareframes/list.php?page=2'']
   \<and> ''https://gytx.dev/wareframes/pog_up_wareframes/list.php?page=2''
       \<in> set (findPaginationLinks [anchor_el ''design.html'', anchor_el ''list.php?page=2''] baseUrl)"
  by code_simp

text \<open>
  C8 (amended). The asset test, the test for links to explore and the pagination test are
  applied independently, and a link that passes none is dropped; a link can pass more than
  one. Two things hold: \<^verbatim>\<open>findLinksToExplore\<close> returns every URL at most once, also when it
  was produced both as a link to explore and as a pagination link; and a link whose
  lowercased \<^verbatim>\<open>href\<close> contains one of the six asset extensions is never accepted by
  \<^verbatim>\<open>shouldExploreLink\<close>.
\<close>

theorem classes_overlap_only_by_keyword:
  "distinct (findLinksToExplore doc cur)
   \<and> ((\<exists>ext\<in>set [''.png'', ''.jpg'', ''.jpeg'', ''.gif'', ''.svg'', ''.pdf''].
          includes_str (toLowerCase href) ext)
       \<longrightarrow> \<not> shouldExploreLink (resolveUrl href base) cur')"
proof (intro conjI impI)
  show "distinct (findLinksToExplore doc cur)"
    by (simp add: findLinksToExplore_def Let_def distinct_dedup)
next
  assume "\<exists>ext\<in>set [''.png'', ''.jpg'', ''.jpeg'', ''.gif'', ''.svg'', ''.pdf''].
          includes_str (toLowerCase href) ext"
  then obtain ext where e: "ext \<in> set [''.png'', ''.jpg'', ''.jpeg'', ''.gif'', ''.svg'', ''.pdf'']"
    and i: "includes_str (toLowerCase href) ext" by blast
  obtain p where "resolveUrl href base = p @ href" using resolveUrl_suffix by blast
  have "CHR 0x84 \<notin> set ext" "CHR 0xAA \<notin> set ext" "CHR 0xB0 \<notin> set ext"
    using e by auto
  from toLowerCase_prefix_includes [OF this i, of p] \<open>resolveUrl href base = p @ href\<close>
  have "includes_str (toLowerCase (resolveUrl href base)) ext" by simp
  have "ext \<in> set directFileExtensions" using e by (auto simp: directFileExtensions_def)
  with \<open>includes_str (toLowerCase (resolveUrl href base)) ext\<close>
  have "some directFileExtensions (\<lambda>ext. includes_str (toLowerCase (resolveUrl href base)) ext)"
    unfolding some_def list_ex_iff by blast
  then show "\<not> shouldExploreLink (resolveUrl href base) cur'"
    by (simp add: shouldExploreLink_def)
qed

theorem classes_overlap_only_by_keyword_witness:
  "distinct (findLinksToExplore [anchor_el ''design.html'', anchor_el ''list.php?page=2''] baseUrl)
   \<and> includes_str (toLowerCase ''/foo.png'') ''.png''
   \<and> \<not> shouldExploreLink (resolveUrl ''/foo.png'' (Some baseUrl)) baseUrl"
proof -
  have i: "includes_str (toLowerCase ''/foo.png'') ''.png''" by code_simp
  then have "\<exists>ext\<in>set [''.png'', ''.jpg'', ''.jpeg'', ''.gif'', ''.svg'', ''.pdf''].
          includes_str (toLowerCase ''/foo.png'') ext" by simp
  with classes_overlap_only_by_keyword
         [of "[anchor_el ''design.html'', anchor_el ''list.php?page=2'']" baseUrl "''/foo.png''"
             "Some baseUrl" baseUrl] i
  show ?thesis by blast
qed

subsection \<open>Failed requests\<close>

lemma failing_site_reachable: "reachable failing_site \<subseteq> {baseUrl, page2Url, page3Url}"
proof (rule reachable_least)
  show "baseUrl \<in> {baseUrl, page2Url, page3Url}" by simp
  have "set (links_of failing_site baseUrl) \<subseteq> {baseUrl, page2Url, page3Url}" by code_simp
  moreover have "set (links_of failing_site page2Url) \<subseteq> {baseUrl, page2Url, page3Url}" by code_simp
  moreover have "set (links_of failing_site page3Url) \<subseteq> {baseUrl, page2Url, page3Url}" by code_simp
  ultimately show "\<forall>u\<in>{baseUrl, page2Url, page3Url}.
      set (links_of failing_site u) \<subseteq> {baseUrl, page2Url, page3Url}"
    by simp
qed

text \<open>
  C9. When the request for an unvisited URL fails (a transport error or a timeout, or a
  status other than 200), \<^verbatim>\<open>explorePage\<close> returns normally, the URL is marked visited and
  the inventory is unchanged; the loop over the links goes on with the remaining links; and
  on a finite link graph \<^verbatim>\<open>exploreAllPages\<close> returns.
\<close>

theorem fetch_failure_is_not_fatal:
  assumes "fetch u = TransportError \<or> (\<exists>status data. fetch u = Response status data \<and> status \<noteq> 200)"
    and "u \<notin> visitedUrls s"
  shows "explorePage (Suc n) fetch u s
           = Returned (s\<lparr>visitedUrls := insert u (visitedUrls s), requests := requests s @ [u]\<rparr>)
     \<and> allWireframes (state_of (explorePage (Suc n) fetch u s)) = allWireframes s
     \<and> exploreLinks (Suc n) fetch (u # rest) s
           = exploreLinks (Suc n) fetch rest
               (s\<lparr>visitedUrls := insert u (visitedUrls s), requests := requests s @ [u]\<rparr>)
     \<and> (finite (reachable fetch) \<longrightarrow>
           (\<exists>s'. exploreAllPages (Suc (card (reachable fetch))) fetch = Returned s'))"
proof -
  let ?s1 = "s\<lparr>visitedUrls := insert u (visitedUrls s), requests := requests s @ [u]\<rparr>"
  have page: "explorePage (Suc n) fetch u s = Returned ?s1"
    using assms by (auto simp: Let_def)
  then have inv: "allWireframes (state_of (explorePage (Suc n) fetch u s)) = allWireframes s"
    by simp
  have loop: "exploreLinks (Suc n) fetch (u # rest) s = exploreLinks (Suc n) fetch rest ?s1"
    using assms(2) page by (simp del: explorePage.simps)
  have "finite (reachable fetch) \<longrightarrow>
           (\<exists>s'. exploreAllPages (Suc (card (reachable fetch))) fetch = Returned s')"
    using crawl_returns by blast
  with page inv loop show ?thesis by blast
qed

theorem fetch_failure_is_not_fatal_witness:
  "failing_site page2Url = TransportError
   \<and> explorePage 1 failing_site page2Url newReader
       = Returned \<lparr>visitedUrls = {page2Url}, allWireframes = [], requests = [page2Url]\<rparr>
   \<and> exploreLinks 1 failing_site [page2Url, page3Url] newReader
       = Returned \<lparr>visitedUrls = {page3Url, page2Url},
            allWireframes = [\<lparr>name = ''mockup'', url = ''https://gytx.dev/mockup'', type = TypeImage,
                               description = Some []\<rparr>],
            requests = [page2Url, page3Url]\<rparr>
   \<and> finite (reachable failing_site)
   \<and> (\<exists>s'. exploreAllPages (Suc (card (reachable failing_site))) failing_site = Returned s')"
proof -
  have f: "failing_site page2Url = TransportError" by code_simp
  then have h1: "failing_site page2Url = TransportError
       \<or> (\<exists>status data. failing_site page2Url = Response status data \<and> status \<noteq> 200)" by simp
  have h2: "page2Url \<notin> visitedUrls newReader" by (simp add: newReader_def)
  have fin: "finite (reachable failing_site)"
    using failing_site_reachable by (rule finite_subset) simp
  have rest: "exploreLinks 1 failing_site [page3Url]
                (newReader\<lparr>visitedUrls := insert page2Url (visitedUrls newReader),
                            requests := requests newReader @ [page2Url]\<rparr>)
       = Returned \<lparr>visitedUrls = {page3Url, page2Url},
            allWireframes = [\<lparr>name = ''mockup'', url = ''https://gytx.dev/mockup'', type = TypeImage,
                               description = Some []\<rparr>],
            requests = [page2Url, page3Url]\<rparr>"
    by code_simp
  have upd: "newReader\<lparr>visitedUrls := insert page2Url (visitedUrls newReader),
                       requests := requests newReader @ [page2Url]\<rparr>
       = \<lparr>visitedUrls = {page2Url}, allWireframes = [], requests = [page2Url]\<rparr>"
    by (simp add: newReader_def)
  from fetch_failure_is_not_fatal
         [where fetch = failing_site and u = page2Url and s = newReader and n = 0
            and rest = "[page3Url]", OF h1 h2] f fin rest upd
  show ?thesis by simp
qed

subsection \<open>Anchors without a dot\<close>



end
